theory Spec2Isabelle
  imports Main "HOL-Library.FSet" "HOL-Library.Sublist"
begin

section \<open>Python values\<close>

text \<open>
  A Python \<open>str\<close> is a sequence of Unicode code points, so a string of the program is a
  list of natural numbers. \<open>ord_str\<close> turns an ASCII literal of this theory into such a
  string.
\<close>

type_synonym pystr = "nat list"

definition ord_str :: "string \<Rightarrow> pystr" where
  "ord_str s = map of_char s"

text \<open>
  The values that can reach \<open>is_youtube_url\<close>: \<open>None\<close>, integers, byte strings and
  strings. On these Python's \<open>==\<close> is structural equality.
\<close>

datatype pyval = PyNone | PyInt int | PyBytes "nat list" | PyStr pystr

datatype pyerror = TypeError pystr | AttributeError pystr | ValueError pystr

fun truthy :: "pyval \<Rightarrow> bool" where
  "truthy PyNone = False"
| "truthy (PyInt i) = (i \<noteq> 0)"
| "truthy (PyBytes b) = (b \<noteq> [])"
| "truthy (PyStr s) = (s \<noteq> [])"

fun isinstance_str :: "pyval \<Rightarrow> bool" where
  "isinstance_str (PyStr s) = True"
| "isinstance_str v = False"

definition startswith :: "pystr \<Rightarrow> pystr \<Rightarrow> bool" where
  "startswith s p = (take (length p) s = p)"

section \<open>The regular expressions of \<open>youtube_patterns\<close>\<close>

text \<open>
  The four patterns use literal characters, the optional group \<open>(...)?\<close>, the optional
  character \<open>s?\<close> and the greedy class repetition \<open>[\w-]+\<close>. A pattern is a list of
  items matched one after the other.
\<close>

datatype item = Lit char | Opt "item list" | PlusWordDash

definition lits :: "string \<Rightarrow> item list" where
  "lits s = map Lit s"

definition scheme_group :: item where
  "scheme_group = Opt (lits ''http'' @ [Opt [Lit CHR ''s'']] @ lits ''://'')"

definition www_group :: item where
  "www_group = Opt (lits ''www.'')"

definition watch_pattern :: "item list" where
  "watch_pattern = [scheme_group, www_group] @ lits ''youtube.com/watch?v='' @ [PlusWordDash]"

definition short_pattern :: "item list" where
  "short_pattern = [scheme_group, www_group] @ lits ''youtu.be/'' @ [PlusWordDash]"

definition shorts_pattern :: "item list" where
  "shorts_pattern = [scheme_group, www_group] @ lits ''youtube.com/shorts/'' @ [PlusWordDash]"

definition playlist_pattern :: "item list" where
  "playlist_pattern =
     [scheme_group, www_group] @ lits ''youtube.com/playlist?list='' @ [PlusWordDash]"

definition youtube_patterns :: "item list list" where
  "youtube_patterns = [watch_pattern, short_pattern, shorts_pattern, playlist_pattern]"

text \<open>
  Matching runs with \<open>re.IGNORECASE\<close> on a \<open>str\<close> pattern. A pattern character that is
  not a letter matches itself only. A pattern letter matches the code points whose lower
  case is that letter, and the code points that share its upper case: besides the two
  ASCII forms these are U+0130 and U+0131 for \<open>i\<close>, U+017F for \<open>s\<close> and U+212A for
  \<open>k\<close>.
\<close>

definition ascii_lower :: "nat \<Rightarrow> nat" where
  "ascii_lower c = (if 65 \<le> c \<and> c \<le> 90 then c + 32 else c)"

definition lit_match :: "char \<Rightarrow> nat \<Rightarrow> bool" where
  "lit_match p c =
     (let lo = ascii_lower (of_char p) in
      if 97 \<le> lo \<and> lo \<le> 122 then
        c = lo \<or> c + 32 = lo
        \<or> (lo = 105 \<and> (c = 304 \<or> c = 305))
        \<or> (lo = 115 \<and> c = 383)
        \<or> (lo = 107 \<and> c = 8490)
      else c = of_char p)"

text \<open>
  \<open>[\w-]\<close>: a word character or the hyphen. On ASCII the word characters are the letters,
  the digits and the underscore. Beyond ASCII they are the alphanumeric code points of the
  Unicode database of the interpreter, which is not part of the repository: the table is
  the parameter \<open>W\<close> of the matcher.
\<close>

definition word_dash :: "(nat \<Rightarrow> bool) \<Rightarrow> nat \<Rightarrow> bool" where
  "word_dash W c =
     (if c < 128 then
        (48 \<le> c \<and> c \<le> 57) \<or> (65 \<le> c \<and> c \<le> 90) \<or> (97 \<le> c \<and> c \<le> 122)
        \<or> c = 95 \<or> c = 45
      else W c)"

text \<open>
  The backtracking matcher: \<open>bt W p s\<close> matches the items \<open>p\<close> against a prefix of \<open>s\<close>
  and returns what is left of \<open>s\<close> after the first match found, in the order the engine tries
  them: an optional group is tried present before absent, the repetition longest first.
\<close>

function (sequential) bt :: "(nat \<Rightarrow> bool) \<Rightarrow> item list \<Rightarrow> pystr \<Rightarrow> pystr option" where
  "bt W [] s = Some s"
| "bt W (Lit p # k) [] = None"
| "bt W (Lit p # k) (c # s) = (if lit_match p c then bt W k s else None)"
| "bt W (Opt g # k) s = (case bt W (g @ k) s of Some r \<Rightarrow> Some r | None \<Rightarrow> bt W k s)"
| "bt W (PlusWordDash # k) [] = None"
| "bt W (PlusWordDash # k) (c # s) =
     (if word_dash W c
      then (case bt W (PlusWordDash # k) s of Some r \<Rightarrow> Some r | None \<Rightarrow> bt W k s)
      else None)"
  by pat_completeness auto
termination
  by (relation "measures [\<lambda>(W, p, s). size_list size p, \<lambda>(W, p, s). length s]") auto

text \<open>
  \<open>re.search\<close> on a string: the start positions are tried from left to right, the end of
  the string included; the result is \<open>match.group(0)\<close>, the matched substring.
\<close>

fun search :: "(nat \<Rightarrow> bool) \<Rightarrow> item list \<Rightarrow> pystr \<Rightarrow> pystr option" where
  "search W p [] = (case bt W p [] of Some r \<Rightarrow> Some [] | None \<Rightarrow> None)"
| "search W p (c # s) =
     (case bt W p (c # s) of
        Some r \<Rightarrow> Some (take (length (c # s) - length r) (c # s))
      | None \<Rightarrow> search W p s)"

text \<open>\<open>re.search\<close> raises \<open>TypeError\<close> when the text is not a string.\<close>

fun re_search :: "(nat \<Rightarrow> bool) \<Rightarrow> item list \<Rightarrow> pyval \<Rightarrow> pyerror + pystr option" where
  "re_search W p (PyStr s) = Inr (search W p s)"
| "re_search W p (PyBytes b) =
     Inl (TypeError (ord_str ''cannot use a string pattern on a bytes-like object''))"
| "re_search W p v = Inl (TypeError (ord_str ''expected string or bytes-like object''))"

section \<open>The link matcher \<open>is_youtube_url\<close>\<close>

text \<open>The loop over the patterns: the first pattern that matches decides the result.\<close>

fun match_patterns :: "(nat \<Rightarrow> bool) \<Rightarrow> item list list \<Rightarrow> pyval \<Rightarrow> pyerror + pystr option" where
  "match_patterns W [] text = Inr None"
| "match_patterns W (p # ps) text =
     (case re_search W p text of
        Inl e \<Rightarrow> Inl e
      | Inr None \<Rightarrow> match_patterns W ps text
      | Inr (Some url) \<Rightarrow>
          Inr (Some (if \<not> startswith url (ord_str ''http'')
                     then ord_str ''https://'' @ url else url)))"

definition is_youtube_url :: "(nat \<Rightarrow> bool) \<Rightarrow> pyval \<Rightarrow> pyerror + pystr option" where
  "is_youtube_url W text =
     (if \<not> truthy text \<or> \<not> isinstance_str text then Inr None
      else match_patterns W youtube_patterns text)"

section \<open>The state of the downloader\<close>

text \<open>
  The calls to the logger and to \<open>show_notification\<close> are recorded, in order, as
  events. An event keeps the values the message is formatted from.
\<close>

datatype event =
    LogAlreadyQueued pystr
  | LogAdded pystr
  | NotifyAddedFirst nat
  | LogAddedAt nat pystr
  | NotifyAddedAt nat pystr
  | LogStarting pystr
  | NotifyStarted nat
  | LogSuccess pyval
  | NotifyCompleteNext pyval nat
  | NotifyCompleteEmpty pyval
  | LogFailed pystr
  | NotifyFailed pystr
  | LogWorkerError pystr
  | LogDetected pystr
  | LogMonitorError pystr
  | LogStopping
  | NotifyStopped

text \<open>
  Where the worker thread stands in \<open>_download_worker\<close>: blocked in or about to call
  \<open>get\<close>, inside \<open>_download_video\<close> for a link, left the loop through the poison
  value, or ended by an exception the loop does not catch.
\<close>

datatype worker_pc = Waiting | Running pystr | Terminated | Died

text \<open>
  The fields of \<open>YouTubeAutoDownloader\<close> the pipeline uses. The queue holds links and
  the poison value \<open>None\<close>; \<open>unfinished_tasks\<close> is the counter of \<open>Queue\<close> that
  \<open>put\<close> increments and \<open>task_done\<close> decrements. \<open>worker\<close> is the control point of
  the worker thread and \<open>monitoring\<close> tells that \<open>monitor_clipboard\<close> has not been
  interrupted.
\<close>

record downloader =
  downloaded_urls :: "pystr fset"
  last_clipboard :: pyval
  download_queue :: "pystr option list"
  unfinished_tasks :: nat
  is_downloading :: bool
  current_download :: "pystr option"
  events :: "event list"
  worker :: worker_pc
  monitoring :: bool

definition init :: downloader where
  "init = \<lparr>downloaded_urls = {||}, last_clipboard = PyStr [], download_queue = [],
            unfinished_tasks = 0, is_downloading = False, current_download = None,
            events = [], worker = Waiting, monitoring = True\<rparr>"

definition emit :: "event \<Rightarrow> downloader \<Rightarrow> downloader" where
  "emit e s = s\<lparr>events := events s @ [e]\<rparr>"

definition queue_put :: "pystr option \<Rightarrow> downloader \<Rightarrow> downloader" where
  "queue_put x s =
     s\<lparr>download_queue := download_queue s @ [x], unfinished_tasks := Suc (unfinished_tasks s)\<rparr>"

section \<open>\<open>add_to_queue\<close>\<close>

text \<open>
  Only the poller calls \<open>add_to_queue\<close>, and only it reads and writes the ledger, so the
  test and the insertion are one step. The size of the queue is read right after \<open>put\<close>.
\<close>

definition add_to_queue :: "pystr \<Rightarrow> downloader \<Rightarrow> downloader" where
  "add_to_queue url s =
     (if url |\<in>| downloaded_urls s then emit (LogAlreadyQueued url) s
      else
        let s1 = s\<lparr>downloaded_urls := finsert url (downloaded_urls s)\<rparr>;
            s2 = queue_put (Some url) s1;
            queue_size = length (download_queue s2)
        in if queue_size = 1 \<and> \<not> is_downloading s2
           then emit (NotifyAddedFirst queue_size) (emit (LogAdded url) s2)
           else emit (NotifyAddedAt queue_size
                        (case current_download s2 of
                           None \<Rightarrow> ord_str ''Starting...''
                         | Some c \<Rightarrow> if c = [] then ord_str ''Starting...'' else c))
                  (emit (LogAddedAt queue_size url) s2))"

section \<open>\<open>_download_video\<close>\<close>

text \<open>
  What \<open>extract_info\<close> does is outside the repository: it returns \<open>None\<close> or a
  dictionary, of which only the entry \<open>title\<close> is read, or it raises. \<open>Raises m\<close> is an
  exception derived from \<open>Exception\<close> whose \<open>str\<close> is \<open>m\<close>; \<open>Aborts\<close> is one that is
  not (\<open>SystemExit\<close>, \<open>KeyboardInterrupt\<close>).
\<close>

datatype info = InfoNone | InfoDict "pyval option"

datatype outcome = Returns info | Raises pystr | Aborts

datatype raised = Exception pystr | BaseException

text \<open>The part of \<open>_download_video\<close> before the \<open>try\<close>.\<close>

definition download_begin :: "pystr \<Rightarrow> downloader \<Rightarrow> downloader" where
  "download_begin url s =
     (let s1 = s\<lparr>is_downloading := True,
                 current_download := Some (take 50 url @ ord_str ''...'')\<rparr>;
          queue_remaining = length (download_queue s1)
      in emit (NotifyStarted queue_remaining) (emit (LogStarting url) s1))"

text \<open>\<open>video_title[:50]\<close>: a slice of a string or of bytes; other values raise.\<close>

fun slice50 :: "pyval \<Rightarrow> pystr + pyval" where
  "slice50 (PyStr t) = Inr (PyStr (take 50 t))"
| "slice50 (PyBytes b) = Inr (PyBytes (take 50 b))"
| "slice50 PyNone =
     Inl ([39] @ ord_str ''NoneType'' @ [39] @ ord_str '' object is not subscriptable'')"
| "slice50 (PyInt i) =
     Inl ([39] @ ord_str ''int'' @ [39] @ ord_str '' object is not subscriptable'')"

text \<open>The body of the \<open>try\<close>: the exception it ends with, if any, and the state.\<close>

definition try_body :: "outcome \<Rightarrow> downloader \<Rightarrow> raised option \<times> downloader" where
  "try_body out s =
     (case out of
        Aborts \<Rightarrow> (Some BaseException, s)
      | Raises m \<Rightarrow> (Some (Exception m), s)
      | Returns InfoNone \<Rightarrow>
          (Some (Exception ([39] @ ord_str ''NoneType'' @ [39]
                   @ ord_str '' object has no attribute '' @ [39] @ ord_str ''get'' @ [39])), s)
      | Returns (InfoDict t) \<Rightarrow>
          (let video_title = (case t of None \<Rightarrow> PyStr (ord_str ''Unknown'') | Some v \<Rightarrow> v);
               s1 = emit (LogSuccess video_title) s;
               queue_remaining = length (download_queue s1)
           in case slice50 video_title of
                Inl m \<Rightarrow> (Some (Exception m), s1)
              | Inr t50 \<Rightarrow>
                  if queue_remaining > 0
                  then (None, emit (NotifyCompleteNext t50 queue_remaining) s1)
                  else (None, emit (NotifyCompleteEmpty t50) s1)))"

text \<open>\<open>except Exception\<close>: an \<open>Exception\<close> is logged and swallowed, any other passes.\<close>

definition except_handler :: "raised option \<times> downloader \<Rightarrow> raised option \<times> downloader" where
  "except_handler rs =
     (case rs of
        (Some (Exception error_msg), s) \<Rightarrow>
          (None, emit (NotifyFailed (take 100 error_msg)) (emit (LogFailed error_msg) s))
      | (r, s) \<Rightarrow> (r, s))"

text \<open>\<open>finally\<close>: runs on every path.\<close>

definition finally_clear :: "raised option \<times> downloader \<Rightarrow> raised option \<times> downloader" where
  "finally_clear rs =
     (case rs of (r, s) \<Rightarrow> (r, s\<lparr>is_downloading := False, current_download := None\<rparr>))"

definition download_finish :: "outcome \<Rightarrow> downloader \<Rightarrow> raised option \<times> downloader" where
  "download_finish out s = finally_clear (except_handler (try_body out s))"

definition download_video :: "pystr \<Rightarrow> outcome \<Rightarrow> downloader \<Rightarrow> raised option \<times> downloader" where
  "download_video url out s = download_finish out (download_begin url s)"

section \<open>\<open>_download_worker\<close>\<close>

text \<open>
  \<open>task_done\<close> raises \<open>ValueError\<close> when no task is unfinished; the loop of the worker
  catches it, logs it and goes on.
\<close>

definition task_done :: "downloader \<Rightarrow> downloader" where
  "task_done s =
     (if unfinished_tasks s = 0
      then emit (LogWorkerError (ord_str ''task_done() called too many times'')) s
      else s\<lparr>unfinished_tasks := unfinished_tasks s - 1\<rparr>)"

text \<open>
  One turn of the loop is two steps of the worker, so that the poller can run while a
  download is under way. \<open>worker_pop\<close> is \<open>get\<close>, the test for the poison value and the
  part of \<open>_download_video\<close> before the \<open>try\<close>; it is refused (\<open>None\<close>) when the worker is
  not at \<open>get\<close>, and while the queue is empty, where \<open>get\<close> blocks. \<open>worker_finish\<close> is
  the rest of \<open>_download_video\<close>, \<open>task_done\<close> and the handler of the loop.
\<close>

definition worker_pop :: "downloader \<Rightarrow> downloader option" where
  "worker_pop s =
     (if worker s \<noteq> Waiting then None
      else case download_queue s of
        [] \<Rightarrow> None
      | x # q \<Rightarrow>
          (let s1 = s\<lparr>download_queue := q\<rparr>
           in case x of
                None \<Rightarrow> Some (s1\<lparr>worker := Terminated\<rparr>)
              | Some url \<Rightarrow> Some ((download_begin url s1)\<lparr>worker := Running url\<rparr>)))"

definition worker_finish :: "outcome \<Rightarrow> downloader \<Rightarrow> downloader option" where
  "worker_finish out s =
     (case worker s of
        Running url \<Rightarrow>
          (case download_finish out s of
             (None, s1) \<Rightarrow> Some ((task_done s1)\<lparr>worker := Waiting\<rparr>)
           | (Some (Exception m), s1) \<Rightarrow> Some ((emit (LogWorkerError m) s1)\<lparr>worker := Waiting\<rparr>)
           | (Some BaseException, s1) \<Rightarrow> Some (s1\<lparr>worker := Died\<rparr>))
      | _ \<Rightarrow> None)"

section \<open>\<open>monitor_clipboard\<close>\<close>

text \<open>
  What \<open>pyperclip.paste\<close> does in one turn of the loop: it returns a value, raises an
  \<open>Exception\<close>, or the turn is cut by \<open>KeyboardInterrupt\<close>.
\<close>

datatype paste = Pasted pyval | PasteFailed pystr | Interrupted

fun error_message :: "pyerror \<Rightarrow> pystr" where
  "error_message (TypeError m) = m"
| "error_message (AttributeError m) = m"
| "error_message (ValueError m) = m"

definition tick :: "(nat \<Rightarrow> bool) \<Rightarrow> paste \<Rightarrow> downloader \<Rightarrow> downloader" where
  "tick W p s =
     (case p of
        Pasted clipboard_content \<Rightarrow>
          if clipboard_content \<noteq> last_clipboard s then
            (let s1 = s\<lparr>last_clipboard := clipboard_content\<rparr>
             in case is_youtube_url W clipboard_content of
                  Inl e \<Rightarrow> emit (LogMonitorError (error_message e)) s1
                | Inr None \<Rightarrow> s1
                | Inr (Some youtube_url) \<Rightarrow>
                    if youtube_url \<noteq> []
                    then add_to_queue youtube_url (emit (LogDetected youtube_url) s1)
                    else s1)
          else s
      | PasteFailed m \<Rightarrow> emit (LogMonitorError m) s
      | Interrupted \<Rightarrow> (emit NotifyStopped (emit LogStopping s))\<lparr>monitoring := False\<rparr>)"

section \<open>The two threads together\<close>

text \<open>
  A step of the system is a turn of the poller or a step of the worker. Once the poller
  is interrupted the process ends, and with it the worker, a daemon thread.
\<close>

datatype action = Tick paste | Pop | Finish outcome

fun step :: "(nat \<Rightarrow> bool) \<Rightarrow> action \<Rightarrow> downloader \<Rightarrow> downloader option" where
  "step W (Tick p) s = (if monitoring s then Some (tick W p s) else None)"
| "step W Pop s = (if monitoring s then worker_pop s else None)"
| "step W (Finish out) s = (if monitoring s then worker_finish out s else None)"

fun run :: "(nat \<Rightarrow> bool) \<Rightarrow> action list \<Rightarrow> downloader \<Rightarrow> downloader option" where
  "run W [] s = Some s"
| "run W (a # as) s = (case step W a s of None \<Rightarrow> None | Some s1 \<Rightarrow> run W as s1)"

text \<open>The links whose download was begun, in order, read off the events.\<close>

fun started :: "event list \<Rightarrow> pystr list" where
  "started [] = []"
| "started (LogStarting url # es) = url # started es"
| "started (e # es) = started es"

text \<open>\<open>add_to_queue\<close> called for each link of a list in turn.\<close>

definition enqueue_all :: "pystr list \<Rightarrow> downloader \<Rightarrow> downloader" where
  "enqueue_all ls s = foldl (\<lambda>s l. add_to_queue l s) s ls"

text \<open>The turns of the worker alone, one per outcome of the download operation.\<close>

definition worker_turns :: "outcome list \<Rightarrow> action list" where
  "worker_turns outs = concat (map (\<lambda>out. [Pop, Finish out]) outs)"

text \<open>A table of word characters for the examples: no code point beyond ASCII.\<close>

definition ascii_words :: "nat \<Rightarrow> bool" where
  "ascii_words c = False"

text \<open>The link the worker is downloading, if any.\<close>

definition in_flight :: "downloader \<Rightarrow> pystr option" where
  "in_flight s = (case worker s of Running l \<Rightarrow> Some l | _ \<Rightarrow> None)"

text \<open>
  What holds in every state the two threads can reach: the queue holds no link twice and no
  poison value, every queued link is in the ledger, the current download is the shortened
  form of the link in flight, and a link in flight is in the ledger and no longer queued.
\<close>

definition pipeline_inv :: "downloader \<Rightarrow> bool" where
  "pipeline_inv s \<longleftrightarrow>
     distinct (download_queue s)
     \<and> (\<forall>x\<in>set (download_queue s). \<exists>l. x = Some l \<and> l |\<in>| downloaded_urls s)
     \<and> current_download s = map_option (\<lambda>l. take 50 l @ ord_str ''...'') (in_flight s)
     \<and> is_downloading s = (in_flight s \<noteq> None)
     \<and> (\<forall>l. in_flight s = Some l \<longrightarrow> l |\<in>| downloaded_urls s \<and> Some l \<notin> set (download_queue s))"

section \<open>Example inputs\<close>

definition link_a :: pystr where
  "link_a = ord_str ''https://www.youtube.com/watch?v=abc123XYZ9''"

definition link_b :: pystr where
  "link_b = ord_str ''https://youtu.be/def456''"

definition long_link :: pystr where
  "long_link = ord_str ''https://www.youtube.com/playlist?list=PLrAXtmErZgOeiKm4sgNOknGvNjby9efdf''"

definition http_error :: pystr where
  "http_error = ord_str ''ERROR: Video unavailable''"

text \<open>The two links detected by two turns of the poller, on a fresh downloader.\<close>

definition two_queued :: downloader where
  "two_queued =
     tick ascii_words (Pasted (PyStr link_b)) (tick ascii_words (Pasted (PyStr link_a)) init)"

text \<open>The worker has popped the first of them.\<close>

definition first_running :: downloader where
  "first_running =
     (download_begin link_a (two_queued\<lparr>download_queue := [Some link_b]\<rparr>))
       \<lparr>worker := Running link_a\<rparr>"

text \<open>Its download has failed.\<close>

definition first_failed :: downloader where
  "first_failed =
     (task_done (snd (download_finish (Raises http_error) first_running)))\<lparr>worker := Waiting\<rparr>"

text \<open>A playlist link of 72 characters is detected and the worker has popped it.\<close>

definition playlist_running :: downloader where
  "playlist_running =
     (download_begin long_link
        ((tick ascii_words (Pasted (PyStr long_link)) init)\<lparr>download_queue := []\<rparr>))
       \<lparr>worker := Running long_link\<rparr>"

section \<open>Auxiliary facts\<close>

lemma match_patterns_str_total: "\<exists>r. match_patterns W ps (PyStr t) = Inr r"
  by (induction ps) (auto split: option.splits)

lemma search_empty:
  "search W watch_pattern [] = None" "search W short_pattern [] = None"
  "search W shorts_pattern [] = None" "search W playlist_pattern [] = None"
  by (simp_all add: watch_pattern_def short_pattern_def shorts_pattern_def playlist_pattern_def
        scheme_group_def www_group_def lits_def)

lemma emit_simps [simp]:
  "downloaded_urls (emit e s) = downloaded_urls s"
  "last_clipboard (emit e s) = last_clipboard s"
  "download_queue (emit e s) = download_queue s"
  "unfinished_tasks (emit e s) = unfinished_tasks s"
  "is_downloading (emit e s) = is_downloading s"
  "current_download (emit e s) = current_download s"
  "events (emit e s) = events s @ [e]"
  "worker (emit e s) = worker s"
  "monitoring (emit e s) = monitoring s"
  by (simp_all add: emit_def)

lemma started_append: "started (es @ fs) = started es @ started fs"
  by (induction es rule: started.induct) simp_all

lemma add_to_queue_seen:
  "l |\<in>| downloaded_urls s \<Longrightarrow> add_to_queue l s = emit (LogAlreadyQueued l) s"
  by (simp add: add_to_queue_def)

lemma add_to_queue_new:
  assumes "l |\<notin>| downloaded_urls s"
  shows "downloaded_urls (add_to_queue l s) = finsert l (downloaded_urls s)"
    and "download_queue (add_to_queue l s) = download_queue s @ [Some l]"
  using assms by (simp_all add: add_to_queue_def queue_put_def Let_def)

lemma add_to_queue_frame [simp]:
  "worker (add_to_queue l s) = worker s"
  "monitoring (add_to_queue l s) = monitoring s"
  "is_downloading (add_to_queue l s) = is_downloading s"
  "current_download (add_to_queue l s) = current_download s"
  "last_clipboard (add_to_queue l s) = last_clipboard s"
  "started (events (add_to_queue l s)) = started (events s)"
  by (simp_all add: add_to_queue_def queue_put_def Let_def started_append)

lemma add_to_queue_ledger: "downloaded_urls (add_to_queue l s) = finsert l (downloaded_urls s)"
  by (cases "l |\<in>| downloaded_urls s") (auto simp: add_to_queue_seen add_to_queue_new)

lemma tick_frame [simp]:
  "worker (tick W p s) = worker s"
  "is_downloading (tick W p s) = is_downloading s"
  "current_download (tick W p s) = current_download s"
  "started (events (tick W p s)) = started (events s)"
  by (simp_all add: tick_def Let_def started_append split: paste.splits sum.splits option.splits)

lemma tick_ledger: "downloaded_urls s |\<subseteq>| downloaded_urls (tick W p s)"
  by (auto simp: tick_def Let_def add_to_queue_ledger split: paste.splits sum.splits option.splits)

lemma download_finish_fields:
  "is_downloading (snd (download_finish out s)) = False"
  "current_download (snd (download_finish out s)) = None"
  "downloaded_urls (snd (download_finish out s)) = downloaded_urls s"
  "download_queue (snd (download_finish out s)) = download_queue s"
  "monitoring (snd (download_finish out s)) = monitoring s"
  "worker (snd (download_finish out s)) = worker s"
  "last_clipboard (snd (download_finish out s)) = last_clipboard s"
  "started (events (snd (download_finish out s))) = started (events s)"
  by (simp_all add: download_finish_def finally_clear_def except_handler_def try_body_def Let_def started_append
        split: prod.splits outcome.splits info.splits option.splits sum.splits raised.splits)

lemma download_finish_raised:
  "fst (download_finish out s) = (if out = Aborts then Some BaseException else None)"
  by (simp add: download_finish_def finally_clear_def except_handler_def try_body_def Let_def
        split: prod.splits outcome.splits info.splits option.splits sum.splits raised.splits)

lemma download_begin_fields:
  "is_downloading (download_begin l s) = True"
  "current_download (download_begin l s) = Some (take 50 l @ ord_str ''...'')"
  "downloaded_urls (download_begin l s) = downloaded_urls s"
  "download_queue (download_begin l s) = download_queue s"
  "monitoring (download_begin l s) = monitoring s"
  "worker (download_begin l s) = worker s"
  "last_clipboard (download_begin l s) = last_clipboard s"
  "events (download_begin l s) = events s @ [LogStarting l, NotifyStarted (length (download_queue s))]"
  by (simp_all add: download_begin_def Let_def)

lemma task_done_fields [simp]:
  "is_downloading (task_done s) = is_downloading s"
  "current_download (task_done s) = current_download s"
  "downloaded_urls (task_done s) = downloaded_urls s"
  "download_queue (task_done s) = download_queue s"
  "monitoring (task_done s) = monitoring s"
  "last_clipboard (task_done s) = last_clipboard s"
  "started (events (task_done s)) = started (events s)"
  by (simp_all add: task_done_def started_append)

lemma worker_pop_link:
  assumes "worker s = Waiting" "download_queue s = Some l # q"
  shows "worker_pop s = Some ((download_begin l (s\<lparr>download_queue := q\<rparr>))\<lparr>worker := Running l\<rparr>)"
  using assms by (simp add: worker_pop_def)


lemma worker_finish_running:
  assumes "worker s = Running l"
  shows "\<exists>s'. worker_finish out s = Some s'
          \<and> worker s' = (if out = Aborts then Died else Waiting)
          \<and> \<not> is_downloading s' \<and> current_download s' = None
          \<and> downloaded_urls s' = downloaded_urls s \<and> download_queue s' = download_queue s
          \<and> monitoring s' = monitoring s \<and> last_clipboard s' = last_clipboard s
          \<and> started (events s') = started (events s)"
proof (cases "download_finish out s")
  case (Pair r s1)
  have f: "is_downloading s1 = False" "current_download s1 = None"
    "downloaded_urls s1 = downloaded_urls s" "download_queue s1 = download_queue s"
    "monitoring s1 = monitoring s" "last_clipboard s1 = last_clipboard s"
    "started (events s1) = started (events s)"
    using download_finish_fields [of out s] Pair by simp_all
  have r: "r = (if out = Aborts then Some BaseException else None)"
    using download_finish_raised [of out s] Pair by simp
  show ?thesis
    using assms Pair f r by (simp add: worker_finish_def)
qed

lemma in_flight_simps [simp]:
  "in_flight (emit e s) = in_flight s"
  "in_flight (add_to_queue l s) = in_flight s"
  "in_flight (tick W p s) = in_flight s"
  "in_flight (s\<lparr>last_clipboard := c\<rparr>) = in_flight s"
  by (simp_all add: in_flight_def)

lemma inv_init: "pipeline_inv init"
  by (simp add: pipeline_inv_def init_def in_flight_def)

lemma inv_emit: "pipeline_inv (emit e s) = pipeline_inv s"
  by (simp add: pipeline_inv_def)

lemma inv_last_clipboard: "pipeline_inv (s\<lparr>last_clipboard := c\<rparr>) = pipeline_inv s"
  by (simp add: pipeline_inv_def)

lemma inv_add_to_queue: "pipeline_inv s \<Longrightarrow> pipeline_inv (add_to_queue l s)"
proof (cases "l |\<in>| downloaded_urls s")
  case True
  assume "pipeline_inv s"
  then show ?thesis using True by (simp add: add_to_queue_seen inv_emit)
next
  case False
  assume i: "pipeline_inv s"
  have "Some l \<notin> set (download_queue s)" using i False by (auto simp: pipeline_inv_def)
  then show ?thesis using i False
    by (auto simp: pipeline_inv_def add_to_queue_new)
qed

lemma inv_monitoring: "pipeline_inv (s\<lparr>monitoring := b\<rparr>) = pipeline_inv s"
  by (simp add: pipeline_inv_def in_flight_def)

lemma inv_tick: "pipeline_inv s \<Longrightarrow> pipeline_inv (tick W p s)"
  by (cases p)
    (simp_all add: tick_def Let_def inv_add_to_queue inv_emit inv_last_clipboard inv_monitoring
      split: sum.splits option.splits)

lemma inv_pop: "pipeline_inv s \<Longrightarrow> worker_pop s = Some s' \<Longrightarrow> pipeline_inv s'"
  by (auto simp: worker_pop_def pipeline_inv_def in_flight_def download_begin_fields Let_def
      split: if_splits list.splits option.splits)

lemma inv_finish: "pipeline_inv s \<Longrightarrow> worker_finish out s = Some s' \<Longrightarrow> pipeline_inv s'"
proof -
  assume i: "pipeline_inv s" and f: "worker_finish out s = Some s'"
  then obtain l where l: "worker s = Running l"
    by (auto simp: worker_finish_def split: worker_pc.splits)
  from worker_finish_running [OF l, of out] f
  have "worker s' = (if out = Aborts then Died else Waiting)" "\<not> is_downloading s'"
    "current_download s' = None" "downloaded_urls s' = downloaded_urls s"
    "download_queue s' = download_queue s" by auto
  then show ?thesis using i by (auto simp: pipeline_inv_def in_flight_def)
qed

lemma inv_step: "pipeline_inv s \<Longrightarrow> step W a s = Some s' \<Longrightarrow> pipeline_inv s'"
proof (cases a)
  case (Tick p)
  assume "pipeline_inv s" "step W a s = Some s'"
  then show ?thesis using Tick inv_tick [of s W p] by (auto split: if_splits)
next
  case Pop
  assume "pipeline_inv s" "step W a s = Some s'"
  then show ?thesis using Pop inv_pop [of s s'] by (auto split: if_splits)
next
  case (Finish out)
  assume "pipeline_inv s" "step W a s = Some s'"
  then show ?thesis using Finish inv_finish [of s out s'] by (auto split: if_splits)
qed

lemma inv_run: "pipeline_inv s \<Longrightarrow> run W acts s = Some s' \<Longrightarrow> pipeline_inv s'"
proof (induction acts arbitrary: s)
  case Nil
  then show ?case by simp
next
  case (Cons a acts)
  from Cons.prems(2) obtain s1 where s1: "step W a s = Some s1" "run W acts s1 = Some s'"
    by (auto split: option.splits)
  from inv_step [OF Cons.prems(1) s1(1)] have "pipeline_inv s1" .
  from Cons.IH [OF this s1(2)] show ?case .
qed

lemma inv_reachable: "run W acts init = Some s \<Longrightarrow> pipeline_inv s"
  using inv_run [OF inv_init] .

lemma run_append:
  "run W (as @ bs) s = (case run W as s of None \<Rightarrow> None | Some s1 \<Rightarrow> run W bs s1)"
  by (induction as arbitrary: s) (auto split: option.splits)

lemma step_ledger: "step W a s = Some s' \<Longrightarrow> downloaded_urls s |\<subseteq>| downloaded_urls s'"
proof (cases a)
  case (Tick p)
  assume "step W a s = Some s'"
  then show ?thesis using Tick tick_ledger [of s W p] by (auto split: if_splits)
next
  case Pop
  assume "step W a s = Some s'"
  then show ?thesis using Pop
    by (auto simp: worker_pop_def download_begin_fields Let_def split: if_splits list.splits option.splits)
next
  case (Finish out)
  assume st: "step W a s = Some s'"
  then obtain l where l: "worker s = Running l"
    using Finish by (auto simp: worker_finish_def split: if_splits worker_pc.splits)
  from worker_finish_running [OF l, of out] st Finish show ?thesis
    by (auto split: if_splits)
qed

lemma run_ledger: "run W acts s = Some s' \<Longrightarrow> downloaded_urls s |\<subseteq>| downloaded_urls s'"
proof (induction acts arbitrary: s)
  case Nil
  then show ?case by simp
next
  case (Cons a acts)
  from Cons.prems obtain s1 where s1: "step W a s = Some s1" "run W acts s1 = Some s'"
    by (auto split: option.splits)
  from step_ledger [OF s1(1)] Cons.IH [OF s1(2)] show ?case by auto
qed

subsection \<open>The example states\<close>

lemmas matcher_defs = is_youtube_url_def youtube_patterns_def watch_pattern_def short_pattern_def
  shorts_pattern_def playlist_pattern_def scheme_group_def www_group_def lits_def ord_str_def
  startswith_def lit_match_def ascii_lower_def word_dash_def

lemma detect_link_a: "is_youtube_url W (PyStr link_a) = Inr (Some link_a)"
  by (simp add: link_a_def matcher_defs)

lemma detect_link_b: "is_youtube_url W (PyStr link_b) = Inr (Some link_b)"
  by (simp add: link_b_def matcher_defs)

lemma detect_long_link: "is_youtube_url W (PyStr long_link) = Inr (Some long_link)"
  by (simp add: long_link_def matcher_defs)

lemma tick_monitoring: "monitoring (tick W p s) = (monitoring s \<and> p \<noteq> Interrupted)"
  by (simp add: tick_def Let_def split: paste.splits sum.splits option.splits)

lemma links_distinct: "link_a \<noteq> link_b" "link_b \<noteq> link_a" "link_a \<noteq> []" "link_b \<noteq> []" "long_link \<noteq> []"
  by (simp_all add: link_a_def link_b_def long_link_def ord_str_def)

lemma tick_detect:
  assumes "is_youtube_url W c = Inr (Some l)" "l \<noteq> []" "c \<noteq> last_clipboard s"
  shows "tick W (Pasted c) s = add_to_queue l (emit (LogDetected l) (s\<lparr>last_clipboard := c\<rparr>))"
  using assms by (simp add: tick_def)

lemma two_queued_fields:
  "download_queue two_queued = [Some link_a, Some link_b]"
  "downloaded_urls two_queued = {|link_a, link_b|}"
  "worker two_queued = Waiting" "monitoring two_queued"
proof -
  let ?s1 = "tick ascii_words (Pasted (PyStr link_a)) init"
  have t1: "?s1 = add_to_queue link_a (emit (LogDetected link_a) (init\<lparr>last_clipboard := PyStr link_a\<rparr>))"
    by (rule tick_detect) (simp_all add: detect_link_a links_distinct init_def)
  have q1: "download_queue ?s1 = [Some link_a]" "downloaded_urls ?s1 = {|link_a|}"
    "last_clipboard ?s1 = PyStr link_a" "monitoring ?s1"
    unfolding t1 by (simp_all add: add_to_queue_new init_def)
  have t2: "two_queued = add_to_queue link_b (emit (LogDetected link_b) (?s1\<lparr>last_clipboard := PyStr link_b\<rparr>))"
    unfolding two_queued_def
    by (rule tick_detect) (simp_all add: detect_link_b links_distinct q1)
  show "download_queue two_queued = [Some link_a, Some link_b]"
    "downloaded_urls two_queued = {|link_a, link_b|}"
    "worker two_queued = Waiting" "monitoring two_queued"
    unfolding t2 using q1 links_distinct by (auto simp add: add_to_queue_new init_def)
qed

lemma two_queued_reach:
  "run ascii_words [Tick (Pasted (PyStr link_a)), Tick (Pasted (PyStr link_b))] init = Some two_queued"
  by (simp add: two_queued_def tick_monitoring init_def)

lemma first_running_fields:
  "worker first_running = Running link_a" "monitoring first_running"
  "download_queue first_running = [Some link_b]"
  "downloaded_urls first_running = {|link_a, link_b|}"
  by (simp_all add: first_running_def download_begin_fields two_queued_fields)

lemma first_running_step: "step W Pop two_queued = Some first_running"
  by (simp add: two_queued_fields worker_pop_link first_running_def)

lemma worker_finish_eq:
  assumes "worker s = Running l" "out \<noteq> Aborts"
  shows "worker_finish out s = Some ((task_done (snd (download_finish out s)))\<lparr>worker := Waiting\<rparr>)"
proof (cases "download_finish out s")
  case (Pair r s1)
  then have "r = None" using download_finish_raised [of out s] assms(2) by simp
  then show ?thesis using assms(1) Pair by (simp add: worker_finish_def)
qed

lemma first_failed_step: "step W (Finish (Raises http_error)) first_running = Some first_failed"
  by (simp add: first_running_fields worker_finish_eq first_failed_def)

lemma first_failed_fields:
  "worker first_failed = Waiting" "monitoring first_failed"
  "download_queue first_failed = [Some link_b]"
  "downloaded_urls first_failed = {|link_a, link_b|}"
  by (simp_all add: first_failed_def download_finish_fields first_running_fields)

lemma search_examples:
  "search W watch_pattern (ord_str ''youtu.be/abc youtube.com/watch?v=xyz'')
     = Some (ord_str ''youtube.com/watch?v=xyz'')"
  "search W short_pattern (ord_str ''youtu.be/abc youtube.com/watch?v=xyz'')
     = Some (ord_str ''youtu.be/abc'')"
  "search W watch_pattern (ord_str ''see http://youtu.be/abc'') = None"
  "search W short_pattern (ord_str ''see http://youtu.be/abc'') = Some (ord_str ''http://youtu.be/abc'')"
  "search W watch_pattern (ord_str ''www.youtube.com/shorts/q-1'') = None"
  "search W short_pattern (ord_str ''www.youtube.com/shorts/q-1'') = None"
  "search W shorts_pattern (ord_str ''www.youtube.com/shorts/q-1'')
     = Some (ord_str ''www.youtube.com/shorts/q-1'')"
  "search W watch_pattern (ord_str ''youtube.com/playlist?list=PL1'') = None"
  "search W short_pattern (ord_str ''youtube.com/playlist?list=PL1'') = None"
  "search W shorts_pattern (ord_str ''youtube.com/playlist?list=PL1'') = None"
  "search W playlist_pattern (ord_str ''youtube.com/playlist?list=PL1'')
     = Some (ord_str ''youtube.com/playlist?list=PL1'')"
  "search W watch_pattern (ord_str ''youtube.com/watch'') = None"
  "search W short_pattern (ord_str ''youtube.com/watch'') = None"
  "search W shorts_pattern (ord_str ''youtube.com/watch'') = None"
  "search W playlist_pattern (ord_str ''youtube.com/watch'') = None"
  by (simp_all add: matcher_defs)

subsection \<open>Runs of the worker\<close>

lemma long_running_reach:
  "run W [Tick (Pasted (PyStr long_link)), Pop] init
     = Some ((download_begin long_link
               ((tick W (Pasted (PyStr long_link)) init)\<lparr>download_queue := []\<rparr>))
             \<lparr>worker := Running long_link\<rparr>)"
proof -
  let ?s1 = "tick W (Pasted (PyStr long_link)) init"
  have t1: "?s1 = add_to_queue long_link (emit (LogDetected long_link) (init\<lparr>last_clipboard := PyStr long_link\<rparr>))"
    by (rule tick_detect) (simp_all add: detect_long_link links_distinct init_def)
  have q1: "download_queue ?s1 = [Some long_link]" "worker ?s1 = Waiting" "monitoring ?s1"
    unfolding t1 by (simp_all add: add_to_queue_new init_def)
  have m: "monitoring init" by (simp add: init_def)
  show ?thesis
    using q1 m by (simp add: worker_pop_link)
qed

lemma add_to_queue_queue:
  "download_queue (add_to_queue l s)
     = (if l |\<in>| downloaded_urls s then download_queue s else download_queue s @ [Some l])"
  by (simp add: add_to_queue_seen add_to_queue_new)

lemma tick_queue:
  "x \<in> set (download_queue (tick W p s)) \<Longrightarrow>
     x \<in> set (download_queue s) \<or> (\<exists>l. x = Some l \<and> l |\<notin>| downloaded_urls s)"
  by (cases p)
    (auto simp: tick_def Let_def add_to_queue_queue split: sum.splits option.splits if_splits)

lemma never_requeued_step:
  assumes "a |\<in>| downloaded_urls s" "Some a \<notin> set (download_queue s)" "step W act s = Some s'"
  shows "a |\<in>| downloaded_urls s' \<and> Some a \<notin> set (download_queue s')"
proof
  show "a |\<in>| downloaded_urls s'" using step_ledger [OF assms(3)] assms(1) by auto
next
  show "Some a \<notin> set (download_queue s')"
  proof (cases act)
    case (Tick p)
    then have "s' = tick W p s" using assms(3) by (auto split: if_splits)
    then show ?thesis using tick_queue [of "Some a" W p s] assms(1,2) by auto
  next
    case Pop
    then show ?thesis using assms(2,3)
      by (auto simp: worker_pop_def download_begin_fields Let_def
          split: if_splits list.splits option.splits)
  next
    case (Finish out)
    then obtain l where l: "worker s = Running l"
      using assms(3) by (auto simp: worker_finish_def split: if_splits worker_pc.splits)
    from worker_finish_running [OF l, of out] assms(2,3) Finish show ?thesis
      by (auto split: if_splits)
  qed
qed

lemma never_requeued_run:
  "a |\<in>| downloaded_urls s \<Longrightarrow> Some a \<notin> set (download_queue s) \<Longrightarrow> run W acts s = Some s'
   \<Longrightarrow> a |\<in>| downloaded_urls s' \<and> Some a \<notin> set (download_queue s')"
proof (induction acts arbitrary: s)
  case Nil
  then show ?case by simp
next
  case (Cons act acts)
  from Cons.prems(3) obtain s1 where s1: "step W act s = Some s1" "run W acts s1 = Some s'"
    by (auto split: option.splits)
  from never_requeued_step [OF Cons.prems(1,2) s1(1)]
  have "a |\<in>| downloaded_urls s1" "Some a \<notin> set (download_queue s1)" by simp_all
  from Cons.IH [OF this s1(2)] show ?case .
qed

lemma failed_logged:
  "LogFailed m \<in> set (events (task_done (snd (download_finish (Raises m) s))))"
  by (simp add: task_done_def download_finish_def finally_clear_def except_handler_def try_body_def)

lemma enqueue_all_fields:
  "distinct ls \<Longrightarrow> \<forall>l\<in>set ls. l |\<notin>| downloaded_urls s \<Longrightarrow>
     download_queue (enqueue_all ls s) = download_queue s @ map Some ls
     \<and> worker (enqueue_all ls s) = worker s
     \<and> monitoring (enqueue_all ls s) = monitoring s
     \<and> started (events (enqueue_all ls s)) = started (events s)"
proof (induction ls arbitrary: s)
  case Nil
  then show ?case by (simp add: enqueue_all_def)
next
  case (Cons l ls)
  have n: "l |\<notin>| downloaded_urls s" using Cons.prems(2) by simp
  have d: "distinct ls" using Cons.prems(1) by simp
  have f: "\<forall>l'\<in>set ls. l' |\<notin>| downloaded_urls (add_to_queue l s)"
    using Cons.prems by (auto simp: add_to_queue_ledger)
  have e: "enqueue_all (l # ls) s = enqueue_all ls (add_to_queue l s)"
    by (simp add: enqueue_all_def)
  show ?case
    using Cons.IH [OF d f] n by (simp add: e add_to_queue_new)
qed

lemma worker_turn:
  assumes "worker s = Waiting" "monitoring s" "download_queue s = Some l # q" "out \<noteq> Aborts"
  shows "\<exists>s1 s'. step W Pop s = Some s1 \<and> worker s1 = Running l \<and> step W Pop s1 = None
           \<and> step W (Finish out) s1 = Some s' \<and> worker s' = Waiting \<and> monitoring s'
           \<and> download_queue s' = q \<and> started (events s') = started (events s) @ [l]"
proof -
  define s1 where "s1 = (download_begin l (s\<lparr>download_queue := q\<rparr>))\<lparr>worker := Running l\<rparr>"
  define s' where "s' = (task_done (snd (download_finish out s1)))\<lparr>worker := Waiting\<rparr>"
  have p1: "step W Pop s = Some s1" using assms by (simp add: worker_pop_link s1_def)
  have f1: "worker s1 = Running l" "monitoring s1" "download_queue s1 = q"
    "started (events s1) = started (events s) @ [l]"
    using assms(2) by (simp_all add: s1_def download_begin_fields started_append)
  have b: "step W Pop s1 = None" using f1 by (simp add: worker_pop_def)
  have p2: "step W (Finish out) s1 = Some s'"
    using f1 assms(4) by (simp add: worker_finish_eq s'_def)
  have f2: "worker s' = Waiting" "monitoring s'" "download_queue s' = q"
    "started (events s') = started (events s) @ [l]"
    using f1 by (simp_all add: s'_def download_finish_fields)
  show ?thesis using p1 f1(1) b p2 f2 by blast
qed

lemma worker_turns_Cons: "worker_turns (out # outs) = Pop # Finish out # worker_turns outs"
  by (simp add: worker_turns_def)

lemma worker_turns_run:
  "length outs = length ls \<Longrightarrow> Aborts \<notin> set outs \<Longrightarrow> worker s = Waiting \<Longrightarrow> monitoring s
   \<Longrightarrow> download_queue s = map Some ls @ q
   \<Longrightarrow> \<exists>s'. run W (worker_turns outs) s = Some s' \<and> worker s' = Waiting \<and> monitoring s'
          \<and> download_queue s' = q \<and> started (events s') = started (events s) @ ls"
proof (induction ls arbitrary: s outs)
  case Nil
  then show ?case by (simp add: worker_turns_def)
next
  case (Cons l ls)
  from Cons.prems(1) obtain out outs' where o: "outs = out # outs'" "length outs' = length ls"
    by (cases outs) auto
  have na: "out \<noteq> Aborts" "Aborts \<notin> set outs'" using Cons.prems(2) o by auto
  have q: "download_queue s = Some l # (map Some ls @ q)" using Cons.prems(5) by simp
  from worker_turn [OF Cons.prems(3,4) q na(1), of W]
  obtain s1 s2 where t: "step W Pop s = Some s1" "step W (Finish out) s1 = Some s2"
    "worker s2 = Waiting" "monitoring s2" "download_queue s2 = map Some ls @ q"
    "started (events s2) = started (events s) @ [l]" by blast
  from Cons.IH [OF o(2) na(2) t(3,4,5)]
  obtain s' where r: "run W (worker_turns outs') s2 = Some s'" "worker s' = Waiting"
    "monitoring s'" "download_queue s' = q" "started (events s') = started (events s2) @ ls"
    by blast
  have "run W (worker_turns outs) s = Some s'"
    using t(1,2) r(1) by (simp add: o worker_turns_Cons del: step.simps)
  then show ?case using r t(6) by simp
qed

lemma worker_turns_prefix:
  "length outs = length ls \<Longrightarrow> Aborts \<notin> set outs \<Longrightarrow> worker s = Waiting \<Longrightarrow> monitoring s
   \<Longrightarrow> download_queue s = map Some ls @ q \<Longrightarrow> k < length ls
   \<Longrightarrow> \<exists>sk. run W (take (2 * k + 1) (worker_turns outs)) s = Some sk
          \<and> worker sk = Running (ls ! k) \<and> step W Pop sk = None"
proof (induction ls arbitrary: s outs k)
  case Nil
  then show ?case by simp
next
  case (Cons l ls)
  from Cons.prems(1) obtain out outs' where o: "outs = out # outs'" "length outs' = length ls"
    by (cases outs) auto
  have na: "out \<noteq> Aborts" "Aborts \<notin> set outs'" using Cons.prems(2) o by auto
  have q: "download_queue s = Some l # (map Some ls @ q)" using Cons.prems(5) by simp
  from worker_turn [OF Cons.prems(3,4) q na(1), of W]
  obtain s1 s2 where t: "step W Pop s = Some s1" "worker s1 = Running l" "step W Pop s1 = None"
    "step W (Finish out) s1 = Some s2"
    "worker s2 = Waiting" "monitoring s2" "download_queue s2 = map Some ls @ q" by blast
  show ?case
  proof (cases k)
    case 0
    then show ?thesis using t(1,2,3) by (simp add: o worker_turns_Cons del: step.simps)
  next
    case (Suc j)
    then have j: "j < length ls" using Cons.prems(6) by simp
    from Cons.IH [OF o(2) na(2) t(5,6,7) j]
    obtain sk where r: "run W (take (2 * j + 1) (worker_turns outs')) s2 = Some sk"
      "worker sk = Running (ls ! j)" "step W Pop sk = None" by blast
    have "run W (take (2 * k + 1) (worker_turns outs)) s = Some sk"
      using t(1,4) r(1) Suc by (simp add: o worker_turns_Cons del: step.simps)
    then show ?thesis using r(2,3) Suc by simp
  qed
qed

section \<open>The link matcher\<close>

text \<open>
  Claim C7, at the input \<open>HTTPS://youtu.be/abc\<close>. The short-link pattern matches the whole
  input, scheme included, since matching ignores case. The test for a scheme that is already
  there, \<open>startswith('http')\<close>, does not ignore case, so the matcher puts \<open>https://\<close> in
  front of a link that has a scheme and returns \<open>https://HTTPS://youtu.be/abc\<close>. With
  the scheme in lower case the link is returned as it is, and without a scheme it gets the
  one prefix.
\<close>

theorem uppercase_scheme_prefixed_again:
  "search W short_pattern (ord_str ''HTTPS://youtu.be/abc'') = Some (ord_str ''HTTPS://youtu.be/abc'')
   \<and> is_youtube_url W (PyStr (ord_str ''HTTPS://youtu.be/abc''))
       = Inr (Some (ord_str ''https://HTTPS://youtu.be/abc''))
   \<and> is_youtube_url W (PyStr (ord_str ''https://youtu.be/abc''))
       = Inr (Some (ord_str ''https://youtu.be/abc''))
   \<and> is_youtube_url W (PyStr (ord_str ''youtu.be/abc''))
       = Inr (Some (ord_str ''https://youtu.be/abc''))"
  by (simp add: matcher_defs)

theorem uppercase_scheme_prefixed_again_witness:
  "search ascii_words short_pattern (ord_str ''HTTPS://youtu.be/abc'')
     = Some (ord_str ''HTTPS://youtu.be/abc'')
   \<and> is_youtube_url ascii_words (PyStr (ord_str ''HTTPS://youtu.be/abc''))
       = Inr (Some (ord_str ''https://HTTPS://youtu.be/abc''))
   \<and> is_youtube_url ascii_words (PyStr (ord_str ''https://youtu.be/abc''))
       = Inr (Some (ord_str ''https://youtu.be/abc''))
   \<and> is_youtube_url ascii_words (PyStr (ord_str ''youtu.be/abc''))
       = Inr (Some (ord_str ''https://youtu.be/abc''))"
  using uppercase_scheme_prefixed_again [of ascii_words] by simp

text \<open>
  Claim C8. The matcher raises on no input: every call returns a result. On the empty
  string and on the values that are not strings (\<open>None\<close>, integers, byte strings) the
  result is \<open>None\<close>, and \<open>re.search\<close>, which raises on such values, is not reached.
\<close>

theorem matcher_total:
  "(\<exists>r. is_youtube_url W v = Inr r) \<and> is_youtube_url W (PyStr []) = Inr None
   \<and> is_youtube_url W PyNone = Inr None \<and> is_youtube_url W (PyInt i) = Inr None
   \<and> is_youtube_url W (PyBytes b) = Inr None"
  using match_patterns_str_total [of W youtube_patterns]
  by (cases v) (auto simp: is_youtube_url_def)

theorem matcher_total_witness:
  "(\<exists>r. is_youtube_url ascii_words (PyStr link_a) = Inr r)
   \<and> is_youtube_url ascii_words (PyStr []) = Inr None
   \<and> is_youtube_url ascii_words PyNone = Inr None
   \<and> is_youtube_url ascii_words (PyInt 7) = Inr None
   \<and> is_youtube_url ascii_words (PyBytes link_a) = Inr None"
  using matcher_total [of ascii_words "PyStr link_a" 7 link_a] by simp

text \<open>
  Claim C10. The patterns are tried in the order watch page, short link, shorts, playlist,
  and the result is built from the match of the first of them that matches somewhere in the
  text: a watch-page match is returned whatever else the text holds, a short-link match only
  when no watch-page link is found, and so on; the result is \<open>None\<close> when none matches.
\<close>

theorem pattern_precedence:
  "(search W watch_pattern t = Some m \<longrightarrow>
      is_youtube_url W (PyStr t)
        = Inr (Some (if startswith m (ord_str ''http'') then m else ord_str ''https://'' @ m)))
   \<and> (search W watch_pattern t = None \<and> search W short_pattern t = Some m \<longrightarrow>
      is_youtube_url W (PyStr t)
        = Inr (Some (if startswith m (ord_str ''http'') then m else ord_str ''https://'' @ m)))
   \<and> (search W watch_pattern t = None \<and> search W short_pattern t = None
       \<and> search W shorts_pattern t = Some m \<longrightarrow>
      is_youtube_url W (PyStr t)
        = Inr (Some (if startswith m (ord_str ''http'') then m else ord_str ''https://'' @ m)))
   \<and> (search W watch_pattern t = None \<and> search W short_pattern t = None
       \<and> search W shorts_pattern t = None \<and> search W playlist_pattern t = Some m \<longrightarrow>
      is_youtube_url W (PyStr t)
        = Inr (Some (if startswith m (ord_str ''http'') then m else ord_str ''https://'' @ m)))
   \<and> (search W watch_pattern t = None \<and> search W short_pattern t = None
       \<and> search W shorts_pattern t = None \<and> search W playlist_pattern t = None \<longrightarrow>
      is_youtube_url W (PyStr t) = Inr None)"
proof (cases t)
  case Nil
  then show ?thesis by (simp add: search_empty is_youtube_url_def del: search.simps)
next
  case (Cons c cs)
  then show ?thesis
    by (simp add: is_youtube_url_def youtube_patterns_def del: search.simps)
qed

theorem pattern_precedence_witness:
  "search ascii_words watch_pattern (ord_str ''youtu.be/abc youtube.com/watch?v=xyz'')
     = Some (ord_str ''youtube.com/watch?v=xyz'')
   \<and> search ascii_words short_pattern (ord_str ''youtu.be/abc youtube.com/watch?v=xyz'')
     = Some (ord_str ''youtu.be/abc'')
   \<and> is_youtube_url ascii_words (PyStr (ord_str ''youtu.be/abc youtube.com/watch?v=xyz''))
     = Inr (Some (ord_str ''https://youtube.com/watch?v=xyz''))
   \<and> search ascii_words watch_pattern (ord_str ''see http://youtu.be/abc'') = None
   \<and> search ascii_words short_pattern (ord_str ''see http://youtu.be/abc'')
     = Some (ord_str ''http://youtu.be/abc'')
   \<and> is_youtube_url ascii_words (PyStr (ord_str ''see http://youtu.be/abc''))
     = Inr (Some (ord_str ''http://youtu.be/abc''))
   \<and> search ascii_words shorts_pattern (ord_str ''www.youtube.com/shorts/q-1'')
     = Some (ord_str ''www.youtube.com/shorts/q-1'')
   \<and> is_youtube_url ascii_words (PyStr (ord_str ''www.youtube.com/shorts/q-1''))
     = Inr (Some (ord_str ''https://www.youtube.com/shorts/q-1''))
   \<and> search ascii_words playlist_pattern (ord_str ''youtube.com/playlist?list=PL1'')
     = Some (ord_str ''youtube.com/playlist?list=PL1'')
   \<and> is_youtube_url ascii_words (PyStr (ord_str ''youtube.com/playlist?list=PL1''))
     = Inr (Some (ord_str ''https://youtube.com/playlist?list=PL1''))
   \<and> search ascii_words playlist_pattern (ord_str ''youtube.com/watch'') = None
   \<and> is_youtube_url ascii_words (PyStr (ord_str ''youtube.com/watch'')) = Inr None"
proof -
  have n: "\<not> startswith (ord_str ''youtube.com/watch?v=xyz'') (ord_str ''http'')"
    "startswith (ord_str ''http://youtu.be/abc'') (ord_str ''http'')"
    "\<not> startswith (ord_str ''www.youtube.com/shorts/q-1'') (ord_str ''http'')"
    "\<not> startswith (ord_str ''youtube.com/playlist?list=PL1'') (ord_str ''http'')"
    by (simp_all add: startswith_def ord_str_def)
  have a: "ord_str ''https://'' @ ord_str ''youtube.com/watch?v=xyz'' = ord_str ''https://youtube.com/watch?v=xyz''"
    "ord_str ''https://'' @ ord_str ''www.youtube.com/shorts/q-1'' = ord_str ''https://www.youtube.com/shorts/q-1''"
    "ord_str ''https://'' @ ord_str ''youtube.com/playlist?list=PL1'' = ord_str ''https://youtube.com/playlist?list=PL1''"
    by (simp_all add: ord_str_def)
  show ?thesis
    using n a search_examples [of ascii_words]
      pattern_precedence [of ascii_words "ord_str ''youtu.be/abc youtube.com/watch?v=xyz''" "ord_str ''youtube.com/watch?v=xyz''"]
      pattern_precedence [of ascii_words "ord_str ''see http://youtu.be/abc''" "ord_str ''http://youtu.be/abc''"]
      pattern_precedence [of ascii_words "ord_str ''www.youtube.com/shorts/q-1''" "ord_str ''www.youtube.com/shorts/q-1''"]
      pattern_precedence [of ascii_words "ord_str ''youtube.com/playlist?list=PL1''" "ord_str ''youtube.com/playlist?list=PL1''"]
      pattern_precedence [of ascii_words "ord_str ''youtube.com/watch''" "[]"]
    by (simp del: search.simps)
qed

section \<open>The poller\<close>

text \<open>
  Claim C9. A turn of the poller that reads the content it saw last leaves the whole state
  as it is: the ledger, the queue, the last-seen content, the current download and the
  recorded events, so no event is emitted.
\<close>

theorem tick_unchanged_noop: "tick W (Pasted (last_clipboard s)) s = s"
  by (simp add: tick_def)

theorem tick_unchanged_noop_witness:
  "last_clipboard two_queued = PyStr link_b
   \<and> tick ascii_words (Pasted (PyStr link_b)) two_queued = two_queued"
proof -
  have "last_clipboard two_queued = PyStr link_b"
    by (simp add: two_queued_def tick_detect detect_link_a detect_link_b links_distinct init_def)
  then show ?thesis using tick_unchanged_noop [of ascii_words two_queued] by simp
qed

section \<open>The ledger and the queue\<close>

text \<open>
  Claim C1. \<open>add_to_queue\<close> of a link that is in the ledger changes neither the queue nor
  the ledger. No sequence of steps of the poller and of the worker, failed downloads
  included, takes a link out of the ledger. So \<open>add_to_queue\<close> called twice with a new
  link makes the ledger and the queue grow by one each.
\<close>

theorem dedup_enqueue_idempotent:
  "(l |\<in>| downloaded_urls s \<longrightarrow>
      download_queue (add_to_queue l s) = download_queue s
      \<and> downloaded_urls (add_to_queue l s) = downloaded_urls s)
   \<and> (run W acts s = Some s' \<longrightarrow> downloaded_urls s |\<subseteq>| downloaded_urls s')
   \<and> (l |\<notin>| downloaded_urls s \<longrightarrow>
      fcard (downloaded_urls (add_to_queue l (add_to_queue l s))) = fcard (downloaded_urls s) + 1
      \<and> length (download_queue (add_to_queue l (add_to_queue l s)))
          = length (download_queue s) + 1)"
proof (intro conjI impI)
  assume "l |\<in>| downloaded_urls s"
  then show "download_queue (add_to_queue l s) = download_queue s"
    and "downloaded_urls (add_to_queue l s) = downloaded_urls s"
    by (simp_all add: add_to_queue_seen)
next
  assume "run W acts s = Some s'"
  then show "downloaded_urls s |\<subseteq>| downloaded_urls s'" by (rule run_ledger)
next
  assume n: "l |\<notin>| downloaded_urls s"
  then have "l |\<in>| downloaded_urls (add_to_queue l s)" by (simp add: add_to_queue_new)
  then have e: "add_to_queue l (add_to_queue l s) = emit (LogAlreadyQueued l) (add_to_queue l s)"
    by (rule add_to_queue_seen)
  show "fcard (downloaded_urls (add_to_queue l (add_to_queue l s))) = fcard (downloaded_urls s) + 1"
    using n by (simp add: e add_to_queue_new fcard_finsert_disjoint)
  show "length (download_queue (add_to_queue l (add_to_queue l s))) = length (download_queue s) + 1"
    using n by (simp add: e add_to_queue_new)
qed

theorem dedup_enqueue_idempotent_witness:
  "link_a |\<in>| downloaded_urls two_queued
   \<and> download_queue (add_to_queue link_a two_queued) = download_queue two_queued
   \<and> downloaded_urls (add_to_queue link_a two_queued) = downloaded_urls two_queued
   \<and> run ascii_words [Pop, Finish (Raises http_error)] two_queued = Some first_failed
   \<and> downloaded_urls two_queued |\<subseteq>| downloaded_urls first_failed
   \<and> link_a |\<notin>| downloaded_urls init
   \<and> fcard (downloaded_urls (add_to_queue link_a (add_to_queue link_a init)))
        = fcard (downloaded_urls init) + 1
   \<and> length (download_queue (add_to_queue link_a (add_to_queue link_a init)))
        = length (download_queue init) + 1"
proof -
  have a: "link_a |\<in>| downloaded_urls two_queued" by (simp add: two_queued_fields)
  have r: "run ascii_words [Pop, Finish (Raises http_error)] two_queued = Some first_failed"
    by (simp add: first_running_step first_failed_step del: step.simps)
  have n: "link_a |\<notin>| downloaded_urls init" by (simp add: init_def)
  show ?thesis
    using a r n
      dedup_enqueue_idempotent [of link_a two_queued ascii_words "[Pop, Finish (Raises http_error)]" first_failed]
      dedup_enqueue_idempotent [of link_a init ascii_words "[]" init]
    by simp
qed

section \<open>The worker\<close>

text \<open>
  Claim C3. \<open>_download_video\<close> ends with \<open>is_downloading\<close> false and \<open>current_download\<close>
  \<open>None\<close> whatever the download operation did: returned, raised an \<open>Exception\<close>, or raised
  something else. The step of the worker that ends a download leaves the state so, and the
  poller does not touch the two fields, so they are clear when the worker next calls \<open>get\<close>.
\<close>

theorem release_unconditional:
  "is_downloading (snd (download_video url out s)) = False
   \<and> current_download (snd (download_video url out s)) = None
   \<and> (monitoring s \<and> worker s = Running url \<longrightarrow>
        (\<exists>s1. step W (Finish out) s = Some s1 \<and> \<not> is_downloading s1 \<and> current_download s1 = None
           \<and> (\<forall>p. \<not> is_downloading (tick W p s1) \<and> current_download (tick W p s1) = None)))"
proof (intro conjI impI)
  show "is_downloading (snd (download_video url out s)) = False"
    and "current_download (snd (download_video url out s)) = None"
    by (simp_all add: download_video_def download_finish_fields)
next
  assume a: "monitoring s \<and> worker s = Running url"
  then have w: "worker s = Running url" by simp
  from worker_finish_running [OF w, of out] a
  show "\<exists>s1. step W (Finish out) s = Some s1 \<and> \<not> is_downloading s1 \<and> current_download s1 = None
           \<and> (\<forall>p. \<not> is_downloading (tick W p s1) \<and> current_download (tick W p s1) = None)"
    by auto
qed

theorem release_unconditional_witness:
  "monitoring first_running \<and> worker first_running = Running link_a
   \<and> is_downloading first_running
   \<and> (\<exists>s1. step ascii_words (Finish (Raises http_error)) first_running = Some s1
         \<and> \<not> is_downloading s1 \<and> current_download s1 = None
         \<and> (\<forall>p. \<not> is_downloading (tick ascii_words p s1) \<and> current_download (tick ascii_words p s1) = None))"
proof -
  have a: "monitoring first_running \<and> worker first_running = Running link_a"
    by (simp add: first_running_fields)
  have b: "is_downloading first_running"
    by (simp add: first_running_def download_begin_fields)
  show ?thesis
    using a b release_unconditional [of link_a "Raises http_error" first_running ascii_words]
    by simp
qed



text \<open>
  Claim C2. Links that are new and pairwise different, enqueued one after the other with
  no pop in between, are appended to the queue in that order. The worker, running its turns
  with any outcomes that are returns or exceptions derived from \<open>Exception\<close>, never blocks,
  begins the downloads of the links already queued and then of the new ones in exactly the
  order of the queue, and leaves the queue empty. After its \<open>k\<close>-th pop it is downloading
  the \<open>k\<close>-th link and a further pop is refused until that download has ended: one link
  is in flight at a time.
\<close>

theorem fifo_order:
  assumes "distinct ls" and "\<forall>l\<in>set ls. l |\<notin>| downloaded_urls s"
    and "worker s = Waiting" and "monitoring s" and "download_queue s = map Some ls0"
    and "length outs = length ls0 + length ls" and "Aborts \<notin> set outs"
  shows "download_queue (enqueue_all ls s) = map Some (ls0 @ ls)
         \<and> (\<exists>s'. run W (worker_turns outs) (enqueue_all ls s) = Some s'
               \<and> started (events s') = started (events s) @ ls0 @ ls
               \<and> download_queue s' = [] \<and> worker s' = Waiting)
         \<and> (\<forall>k<length (ls0 @ ls).
               \<exists>sk. run W (take (2 * k + 1) (worker_turns outs)) (enqueue_all ls s) = Some sk
                  \<and> worker sk = Running ((ls0 @ ls) ! k) \<and> step W Pop sk = None)"
proof -
  let ?s = "enqueue_all ls s"
  from enqueue_all_fields [OF assms(1,2)] assms(3,4,5)
  have f: "download_queue ?s = map Some (ls0 @ ls) @ []" "worker ?s = Waiting" "monitoring ?s"
    "started (events ?s) = started (events s)" by simp_all
  have n: "length outs = length (ls0 @ ls)" using assms(6) by simp
  from worker_turns_run [OF n assms(7) f(2,3,1), of W] f(4)
  have a: "\<exists>s'. run W (worker_turns outs) ?s = Some s'
               \<and> started (events s') = started (events s) @ ls0 @ ls
               \<and> download_queue s' = [] \<and> worker s' = Waiting" by auto
  have b: "\<forall>k<length (ls0 @ ls).
               \<exists>sk. run W (take (2 * k + 1) (worker_turns outs)) ?s = Some sk
                  \<and> worker sk = Running ((ls0 @ ls) ! k) \<and> step W Pop sk = None"
    using worker_turns_prefix [OF n assms(7) f(2,3,1), of _ W] by blast
  show ?thesis using f(1) a b by simp
qed

theorem fifo_order_witness:
  "link_a \<noteq> link_b \<and> link_a |\<notin>| downloaded_urls init \<and> link_b |\<notin>| downloaded_urls init
   \<and> worker init = Waiting \<and> monitoring init \<and> download_queue init = []
   \<and> download_queue (enqueue_all [link_a, link_b] init) = [Some link_a, Some link_b]
   \<and> (\<exists>s'. run ascii_words (worker_turns [Raises http_error, Returns (InfoDict None)])
                (enqueue_all [link_a, link_b] init) = Some s'
           \<and> started (events s') = [link_a, link_b]
           \<and> download_queue s' = [] \<and> worker s' = Waiting)
   \<and> (\<exists>sk. run ascii_words (take 3 (worker_turns [Raises http_error, Returns (InfoDict None)]))
                (enqueue_all [link_a, link_b] init) = Some sk
           \<and> worker sk = Running link_b \<and> step ascii_words Pop sk = None)"
proof -
  have h: "distinct [link_a, link_b]" "\<forall>l\<in>set [link_a, link_b]. l |\<notin>| downloaded_urls init"
    "worker init = Waiting" "monitoring init" "download_queue init = map Some []"
    "length [Raises http_error, Returns (InfoDict None)] = length ([] :: pystr list) + length [link_a, link_b]"
    "Aborts \<notin> set [Raises http_error, Returns (InfoDict None)]"
    by (simp_all add: links_distinct init_def)
  have e: "started (events init) = []" by (simp add: init_def)
  note t = fifo_order [OF h, of ascii_words]
  from t have a: "download_queue (enqueue_all [link_a, link_b] init) = [Some link_a, Some link_b]"
    by simp
  from t e have b: "\<exists>s'. run ascii_words (worker_turns [Raises http_error, Returns (InfoDict None)])
                (enqueue_all [link_a, link_b] init) = Some s'
           \<and> started (events s') = [link_a, link_b]
           \<and> download_queue s' = [] \<and> worker s' = Waiting"
    by simp
  from t have "\<forall>k<length ([] @ [link_a, link_b]).
      \<exists>sk. run ascii_words (take (2 * k + 1) (worker_turns [Raises http_error, Returns (InfoDict None)]))
              (enqueue_all [link_a, link_b] init) = Some sk
         \<and> worker sk = Running (([] @ [link_a, link_b]) ! k) \<and> step ascii_words Pop sk = None"
    by blast
  then have "1 < length ([] @ [link_a, link_b]) \<longrightarrow>
      (\<exists>sk. run ascii_words (take (2 * 1 + 1) (worker_turns [Raises http_error, Returns (InfoDict None)]))
              (enqueue_all [link_a, link_b] init) = Some sk
         \<and> worker sk = Running (([] @ [link_a, link_b]) ! 1) \<and> step ascii_words Pop sk = None)"
    by (rule spec)
  then have c: "\<exists>sk. run ascii_words (take 3 (worker_turns [Raises http_error, Returns (InfoDict None)]))
                (enqueue_all [link_a, link_b] init) = Some sk
           \<and> worker sk = Running link_b \<and> step ascii_words Pop sk = None"
    by simp
  show ?thesis using h(3,4) a b c by (simp add: links_distinct init_def)
qed

text \<open>
  Claim C4, as the code has it. In every state the two threads reach, while the worker is
  downloading a link the current download is the string made of the first 50 characters of
  the link followed by three dots, and \<open>is_downloading\<close> is set; while it is not
  downloading, the current download is \<open>None\<close> and \<open>is_downloading\<close> is clear. The field
  holds one string at most, and no start time is kept.
\<close>

theorem current_download_invariant:
  "run W acts init = Some s \<Longrightarrow>
     (\<forall>l. worker s = Running l \<longrightarrow>
        current_download s = Some (take 50 l @ ord_str ''...'') \<and> is_downloading s)
     \<and> ((\<forall>l. worker s \<noteq> Running l) \<longrightarrow> current_download s = None \<and> \<not> is_downloading s)"
proof -
  assume "run W acts init = Some s"
  then have "pipeline_inv s" by (rule inv_reachable)
  then show ?thesis
    by (auto simp: pipeline_inv_def in_flight_def split: worker_pc.splits)
qed

theorem current_download_invariant_witness:
  "run ascii_words [Tick (Pasted (PyStr long_link)), Pop] init = Some playlist_running
   \<and> worker playlist_running = Running long_link
   \<and> current_download playlist_running
       = Some (ord_str ''https://www.youtube.com/playlist?list=PLrAXtmErZgO...'')
   \<and> is_downloading playlist_running
   \<and> run ascii_words [] init = Some init \<and> worker init = Waiting
   \<and> current_download init = None \<and> \<not> is_downloading init"
proof -
  have t: "take 50 long_link @ ord_str ''...''
      = ord_str ''https://www.youtube.com/playlist?list=PLrAXtmErZgO...''"
    by (simp add: long_link_def ord_str_def)
  have p: "run ascii_words [Tick (Pasted (PyStr long_link)), Pop] init = Some playlist_running"
    unfolding playlist_running_def by (rule long_running_reach)
  have r: "run ascii_words [] init = Some init" by simp
  have w: "worker init = Waiting" "worker playlist_running = Running long_link"
    by (simp_all add: init_def playlist_running_def)
  show ?thesis
    using t p r w current_download_invariant [OF p] current_download_invariant [OF r]
    by (simp del: run.simps)
qed

text \<open>
  Claim C4 as stated fails: for a playlist link of 72 characters the current download is a
  string of 53 characters, which is not the link and does not contain it.
\<close>

theorem current_download_not_the_link:
  "map_option worker (run ascii_words [Tick (Pasted (PyStr long_link)), Pop] init)
     = Some (Running long_link)
   \<and> map_option current_download (run ascii_words [Tick (Pasted (PyStr long_link)), Pop] init)
     = Some (Some (ord_str ''https://www.youtube.com/playlist?list=PLrAXtmErZgO...''))
   \<and> \<not> sublist long_link (ord_str ''https://www.youtube.com/playlist?list=PLrAXtmErZgO...'')"
proof -
  have "length (ord_str ''https://www.youtube.com/playlist?list=PLrAXtmErZgO...'') < length long_link"
    by (simp add: long_link_def ord_str_def)
  then have "\<not> sublist long_link (ord_str ''https://www.youtube.com/playlist?list=PLrAXtmErZgO...'')"
    using sublist_length_le [of long_link "ord_str ''https://www.youtube.com/playlist?list=PLrAXtmErZgO...''"]
    by auto
  moreover have "take 50 long_link @ ord_str ''...''
      = ord_str ''https://www.youtube.com/playlist?list=PLrAXtmErZgO...''"
    by (simp add: long_link_def ord_str_def)
  ultimately show ?thesis
    by (simp add: long_running_reach download_begin_fields del: run.simps)
qed

text \<open>
  Claim C5. In a state the two threads reach, with links \<open>a\<close> and then \<open>b\<close> at the head
  of the queue: the worker pops \<open>a\<close>, its download raises an error, and the failure is
  logged; the worker is back at \<open>get\<close>, \<open>b\<close> is at the head of the queue, \<open>a\<close> is in
  the ledger and not in the queue, and stays so through every later run of the poller and
  the worker; the next pop begins the download of \<open>b\<close>.
\<close>

theorem failure_isolation:
  assumes "run W pre init = Some s" and "monitoring s" and "worker s = Waiting"
    and "download_queue s = Some a # Some b # q"
  shows "\<exists>s1 s2 s3.
           step W Pop s = Some s1 \<and> worker s1 = Running a
           \<and> step W (Finish (Raises m)) s1 = Some s2 \<and> worker s2 = Waiting
           \<and> LogFailed m \<in> set (events s2)
           \<and> download_queue s2 = Some b # q \<and> Some a \<notin> set (download_queue s2)
           \<and> a |\<in>| downloaded_urls s2
           \<and> (\<forall>acts s'. run W acts s2 = Some s' \<longrightarrow>
                 Some a \<notin> set (download_queue s') \<and> a |\<in>| downloaded_urls s')
           \<and> step W Pop s2 = Some s3 \<and> worker s3 = Running b"
proof -
  have i: "pipeline_inv s" using assms(1) by (rule inv_reachable)
  have na: "Some a \<notin> set (Some b # q)" and la: "a |\<in>| downloaded_urls s"
    using i assms(4) by (auto simp: pipeline_inv_def)
  define s1 where "s1 = (download_begin a (s\<lparr>download_queue := Some b # q\<rparr>))\<lparr>worker := Running a\<rparr>"
  define s2 where "s2 = (task_done (snd (download_finish (Raises m) s1)))\<lparr>worker := Waiting\<rparr>"
  define s3 where "s3 = (download_begin b (s2\<lparr>download_queue := q\<rparr>))\<lparr>worker := Running b\<rparr>"
  have p1: "step W Pop s = Some s1"
    using assms(2,3,4) by (simp add: worker_pop_link s1_def)
  have f1: "worker s1 = Running a" "monitoring s1" "download_queue s1 = Some b # q"
    "downloaded_urls s1 = downloaded_urls s"
    using assms(2) by (simp_all add: s1_def download_begin_fields)
  have p2: "step W (Finish (Raises m)) s1 = Some s2"
    using f1 by (simp add: worker_finish_eq s2_def)
  have f2: "worker s2 = Waiting" "monitoring s2" "download_queue s2 = Some b # q"
    "downloaded_urls s2 = downloaded_urls s"
    using f1 by (simp_all add: s2_def download_finish_fields)
  have e2: "LogFailed m \<in> set (events s2)"
    using failed_logged [of m s1] by (simp add: s2_def)
  have p3: "step W Pop s2 = Some s3"
    using f2 by (simp add: worker_pop_link s3_def)
  have f3: "worker s3 = Running b" by (simp add: s3_def)
  have never: "\<forall>acts s'. run W acts s2 = Some s' \<longrightarrow>
                 Some a \<notin> set (download_queue s') \<and> a |\<in>| downloaded_urls s'"
    using never_requeued_run [of a s2 W] na la f2 by auto
  show ?thesis
    using p1 f1(1) p2 f2(1,3,4) e2 na la never p3 f3 by auto
qed

theorem failure_isolation_witness:
  "run ascii_words [Tick (Pasted (PyStr link_a)), Tick (Pasted (PyStr link_b))] init = Some two_queued
   \<and> monitoring two_queued \<and> worker two_queued = Waiting
   \<and> download_queue two_queued = [Some link_a, Some link_b]
   \<and> (\<exists>s1 s2 s3.
           step ascii_words Pop two_queued = Some s1 \<and> worker s1 = Running link_a
           \<and> step ascii_words (Finish (Raises http_error)) s1 = Some s2 \<and> worker s2 = Waiting
           \<and> LogFailed http_error \<in> set (events s2)
           \<and> download_queue s2 = [Some link_b] \<and> Some link_a \<notin> set (download_queue s2)
           \<and> link_a |\<in>| downloaded_urls s2
           \<and> (\<forall>acts s'. run ascii_words acts s2 = Some s' \<longrightarrow>
                 Some link_a \<notin> set (download_queue s') \<and> link_a |\<in>| downloaded_urls s')
           \<and> step ascii_words Pop s2 = Some s3 \<and> worker s3 = Running link_b)"
  using two_queued_reach two_queued_fields
    failure_isolation [OF two_queued_reach, of link_a link_b "[]" http_error]
  by simp

end
